theory Spec2Isabelle
  imports Main
begin

section \<open>Strings\<close>

text \<open>
  A JavaScript string is a sequence of UTF-16 code units. Here a string is a list of
  \<^typ>\<open>char\<close>, one \<^typ>\<open>char\<close> per code unit, so the model covers the strings whose
  code units lie below 256; \<open>length\<close> is JavaScript's \<open>.length\<close> on them.
\<close>

text \<open>
  The class \<open>\s\<close> of a regular expression, which is also what \<open>trim()\<close> strips:
  tab, line feed, vertical tab, form feed, carriage return, space and the no-break
  space (the members of the class below 256).
\<close>

definition is_space :: "char \<Rightarrow> bool" where
  "is_space c \<longleftrightarrow>
     c = CHR 0x09 \<or> c = CHR 0x0A \<or> c = CHR 0x0B \<or> c = CHR 0x0C \<or> c = CHR 0x0D \<or>
     c = CHR 0x20 \<or> c = CHR 0xA0"

text \<open>The class \<open>[.!?]\<close> of \<open>generateSummary\<close>.\<close>

definition is_sentence_end :: "char \<Rightarrow> bool" where
  "is_sentence_end c \<longleftrightarrow> c = CHR ''.'' \<or> c = CHR ''!'' \<or> c = CHR ''?''"

text \<open>\<open>s.trim()\<close>.\<close>

definition trim :: "string \<Rightarrow> string" where
  "trim s = rev (dropWhile is_space (rev (dropWhile is_space s)))"

text \<open>
  \<open>s.split(/[C]+/)\<close> for a character class \<open>C\<close>: the pieces of \<open>s\<close> between the
  maximal runs of characters of \<open>C\<close>. A run at the start or at the end of \<open>s\<close> leaves
  an empty piece there, and the empty string splits into one empty piece.
\<close>

function split_runs :: "(char \<Rightarrow> bool) \<Rightarrow> string \<Rightarrow> string list" where
  "split_runs sep s =
     (case dropWhile (\<lambda>c. \<not> sep c) s of
        [] \<Rightarrow> [s]
      | _ # rest \<Rightarrow> takeWhile (\<lambda>c. \<not> sep c) s # split_runs sep (dropWhile sep rest))"
  by pat_completeness auto
termination
proof (relation "measure (\<lambda>(sep, s). length s)", goal_cases)
  case 1
  show ?case by simp
next
  case (2 sep s x rest)
  have "length (dropWhile sep rest) \<le> length rest"
    by (rule length_dropWhile_le)
  moreover have "length (dropWhile (\<lambda>c. \<not> sep c) s) \<le> length s"
    by (rule length_dropWhile_le)
  ultimately show ?case using 2 by simp
qed

declare split_runs.simps [simp del]

text \<open>\<open>parts.join(sep)\<close>.\<close>

fun join :: "string \<Rightarrow> string list \<Rightarrow> string" where
  "join sep [] = []"
| "join sep [x] = x"
| "join sep (x # y # ys) = x @ sep @ join sep (y # ys)"

text \<open>\<open>s.startsWith(p)\<close> and \<open>s.includes(p)\<close>.\<close>

fun startsWith :: "string \<Rightarrow> string \<Rightarrow> bool" where
  "startsWith s [] = True"
| "startsWith [] (p # ps) = False"
| "startsWith (c # cs) (p # ps) = (c = p \<and> startsWith cs ps)"

fun str_includes :: "string \<Rightarrow> string \<Rightarrow> bool" where
  "str_includes [] p = (p = [])"
| "str_includes (c # cs) p = (startsWith (c # cs) p \<or> str_includes cs p)"

definition endsWith :: "string \<Rightarrow> string \<Rightarrow> bool" where
  "endsWith s p = startsWith (rev s) (rev p)"

text \<open>
  Case folding of the flag \<open>i\<close>: against a pattern of ASCII letters only an ASCII
  letter of either case matches, so the subject is compared after its letters
  \<open>A\<close> to \<open>Z\<close> are lowered.
\<close>

definition ascii_lower :: "char \<Rightarrow> char" where
  "ascii_lower c =
     (case map_of (zip ''ABCDEFGHIJKLMNOPQRSTUVWXYZ'' ''abcdefghijklmnopqrstuvwxyz'') c of
        None \<Rightarrow> c
      | Some l \<Rightarrow> l)"

text \<open>A number written in decimal, as a template literal prints it.\<close>

definition digit_char :: "nat \<Rightarrow> char" where
  "digit_char n = ''0123456789'' ! (n mod 10)"

fun show_nat :: "nat \<Rightarrow> string" where
  "show_nat n = (if n < 10 then [digit_char n] else show_nat (n div 10) @ [digit_char n])"

declare show_nat.simps [simp del]

section \<open>Summary and word count\<close>

text \<open>
  \<^verbatim>\<open>
  function generateSummary(content: string): string {
    const sentences = content.split(/[.!?]+/).filter((s) => s.trim().length > 20)
    const summary = sentences.slice(0, 3).join(". ").trim()
    return summary.length > 300 ? summary.substring(0, 300) + "..." : summary + "."
  }
  \<close>
\<close>

definition generateSummary :: "string \<Rightarrow> string" where
  "generateSummary content =
     (let sentences = filter (\<lambda>s. length (trim s) > 20) (split_runs is_sentence_end content);
          summary = trim (join ''. '' (take 3 sentences))
      in if length summary > 300 then take 300 summary @ ''...'' else summary @ ''.'')"

text \<open>
  The word count of \<open>crawlSinglePage\<close>:
  \<^verbatim>\<open>content.split(/\s+/).filter((word) => word.length > 0).length\<close>
\<close>

definition wordCountOf :: "string \<Rightarrow> nat" where
  "wordCountOf content = length (filter (\<lambda>word. length word > 0) (split_runs is_space content))"

text \<open>
  The specification's count, in its own words: the number of whitespace-delimited
  non-empty tokens. It is counted in one pass, as the number of places where a token
  starts: a character that is not whitespace and that stands first or after a
  whitespace character. The flag says whether the previous character was whitespace
  (or there was none).
\<close>

fun spec_token_count :: "bool \<Rightarrow> string \<Rightarrow> nat" where
  "spec_token_count after_space [] = 0"
| "spec_token_count after_space (c # cs) =
     (if is_space c then spec_token_count True cs
      else (if after_space then 1 else 0) + spec_token_count False cs)"

section \<open>The world outside the program\<close>

text \<open>
  A thrown value: an \<open>Error\<close> object with its message, or any other value. The
  handlers read it with
  \<^verbatim>\<open>error instanceof Error ? error.message : "Unknown error"\<close>.
\<close>

datatype js_exn = Error string | NonError

definition message_of :: "js_exn \<Rightarrow> string" where
  "message_of e = (case e of Error m \<Rightarrow> m | NonError \<Rightarrow> ''Unknown error'')"

text \<open>
  What the program reads of a \<open>Response\<close>: \<open>ok\<close>, \<open>status\<close>, \<open>statusText\<close>, and the
  outcome of \<open>await response.text()\<close>, the body or a thrown value.
\<close>

record Response =
  ok :: bool
  status_code :: nat
  statusText :: string
  body_text :: "js_exn + string"

text \<open>What the program reads of a parsed \<open>URL\<close> object.\<close>

record URL =
  protocol :: string
  host :: string
  hostname :: string

text \<open>
  The library and platform functions the crawler calls, as parameters. \<open>'w\<close> is the
  state of everything outside the program (the network, the clock, the random
  source); \<open>'d\<close> is a document parsed by cheerio.
  \<^item> \<open>fetch url\<close>: one call of the platform's \<open>fetch\<close> under its 15 second abort
    timer; it resolves to a response or rejects with a thrown value.
  \<^item> \<open>parse_url s\<close>: \<open>new URL(s)\<close>, which throws on a string that is no URL.
  \<^item> \<open>resolve_url href base\<close>: \<open>new URL(href, base).toString()\<close>.
  \<^item> \<open>load html\<close>: \<open>cheerio.load(html)\<close>.
  \<^item> \<open>anchor_hrefs doc\<close>: the \<open>href\<close> attribute of each element that \<open>a[href]\<close>
    selects, in document order.
  \<^item> \<open>select_count doc sel\<close>, \<open>select_text doc sel\<close>, \<open>select_first_text doc sel\<close>,
    \<open>select_attr doc sel name\<close>: \<open>$(sel).length\<close>, \<open>$(sel).text()\<close>,
    \<open>$(sel).first().text()\<close>, \<open>$(sel).attr(name)\<close>; \<open>remove doc sel\<close> is the
    document after \<open>$(sel).remove()\<close>.
  \<^item> \<open>random36\<close>, \<open>now36\<close>, \<open>now_iso\<close>: \<open>Math.random().toString(36)\<close>,
    \<open>Date.now().toString(36)\<close>, \<open>new Date().toISOString()\<close>.
  Of these, \<open>fetch\<close>, \<open>new URL\<close>, reading a body and \<open>cheerio.load\<close> may throw; the
  selections on a loaded document return normally. The pauses (\<open>setTimeout\<close>) and
  the console output are not modelled.
\<close>

record ('w, 'd) env =
  fetch :: "string \<Rightarrow> 'w \<Rightarrow> (js_exn + Response) \<times> 'w"
  parse_url :: "string \<Rightarrow> js_exn + URL"
  resolve_url :: "string \<Rightarrow> string \<Rightarrow> js_exn + string"
  load :: "string \<Rightarrow> js_exn + 'd"
  anchor_hrefs :: "'d \<Rightarrow> string list"
  select_count :: "'d \<Rightarrow> string \<Rightarrow> nat"
  select_text :: "'d \<Rightarrow> string \<Rightarrow> string"
  select_first_text :: "'d \<Rightarrow> string \<Rightarrow> string"
  select_attr :: "'d \<Rightarrow> string \<Rightarrow> string \<Rightarrow> string option"
  remove :: "'d \<Rightarrow> string \<Rightarrow> 'd"
  random36 :: "'w \<Rightarrow> string \<times> 'w"
  now36 :: "'w \<Rightarrow> string \<times> 'w"
  now_iso :: "'w \<Rightarrow> string \<times> 'w"

section \<open>Page records, events and the state of a run\<close>

datatype page_status = Pending | Crawling | Completed | ErrorStatus

record CrawledPage =
  page_id :: string
  url :: string
  title :: string
  content :: string
  status :: page_status
  crawledAt :: "string option"
  error :: "string option"
  summary :: "string option"
  wordCount :: "nat option"

record CrawlProgress =
  total_count :: nat
  completed :: nat
  current :: string

text \<open>The objects handed to the progress callback, by their \<open>type\<close> field.\<close>

datatype event =
  ProgressEvent CrawlProgress
| PageEvent CrawledPage
| CompleteEvent nat
| ErrorEvent string

text \<open>
  The state a run threads through: the outside world; \<open>requests\<close>, the URLs passed to
  \<open>fetch\<close> so far, in order (kept to say when the network was used); \<open>pages\<close>, the map
  of \<open>storage.ts\<close>; and \<open>delivered\<close>, the events handed to the progress callback so
  far, in order.
\<close>

record 'w sys =
  world :: 'w
  requests :: "string list"
  pages :: "string \<rightharpoonup> CrawledPage"
  delivered :: "event list"

definition storePage :: "CrawledPage \<Rightarrow> 'w sys \<Rightarrow> 'w sys" where
  "storePage page s = s\<lparr>pages := (pages s)(page_id page \<mapsto> page)\<rparr>"



text \<open>
  \<^verbatim>\<open>Math.random().toString(36).substring(2) + Date.now().toString(36)\<close>
\<close>

definition generateId :: "('w, 'd) env \<Rightarrow> 'w sys \<Rightarrow> string \<times> 'w sys" where
  "generateId env s =
     (case random36 env (world s) of (r, w1) \<Rightarrow>
        (case now36 env w1 of (t, w2) \<Rightarrow> (drop 2 r @ t, s\<lparr>world := w2\<rparr>)))"

section \<open>fetchWithRetry\<close>

text \<open>
  The loop \<open>for (let attempt = 1; attempt <= maxRetries; attempt++)\<close>, entered at
  \<open>attempt\<close>. A response of any status is returned at once. A rejected attempt that
  is not the last one is followed by the next attempt; the last one throws the hint
  when the URL string contains one of three domain names (reading the hostname with
  \<open>new URL(url)\<close>, which may itself throw), and rethrows the rejection otherwise.
\<close>

function fetch_from ::
  "('w, 'd) env \<Rightarrow> string \<Rightarrow> int \<Rightarrow> int \<Rightarrow> 'w sys \<Rightarrow> (js_exn + Response) \<times> 'w sys" where
  "fetch_from env u maxRetries attempt s =
     (if attempt \<le> maxRetries then
        (case fetch env u (world s) of (outcome, w) \<Rightarrow>
           (case outcome of
              Inr response \<Rightarrow> (Inr response, s\<lparr>world := w, requests := requests s @ [u]\<rparr>)
            | Inl err \<Rightarrow>
                if attempt = maxRetries then
                  (if str_includes u ''google.com'' \<or> str_includes u ''facebook.com'' \<or>
                      str_includes u ''twitter.com''
                   then (case parse_url env u of
                           Inl e \<Rightarrow> (Inl e, s\<lparr>world := w, requests := requests s @ [u]\<rparr>)
                         | Inr parsed \<Rightarrow>
                             (Inl (Error (''This website ('' @ hostname parsed @
                                '') blocks automated crawling. Try a different website like example.com, wikipedia.org, or your own website.'')),
                              s\<lparr>world := w, requests := requests s @ [u]\<rparr>))
                   else (Inl err, s\<lparr>world := w, requests := requests s @ [u]\<rparr>))
                else fetch_from env u maxRetries (attempt + 1)
                       (s\<lparr>world := w, requests := requests s @ [u]\<rparr>)))
      else (Inl (Error ''Max retries exceeded''), s))"
  by pat_completeness auto
termination
  by (relation "measure (\<lambda>(env, u, maxRetries, attempt, s). nat (maxRetries + 1 - attempt))") auto

declare fetch_from.simps [simp del]

definition fetchWithRetry ::
  "('w, 'd) env \<Rightarrow> string \<Rightarrow> int \<Rightarrow> 'w sys \<Rightarrow> (js_exn + Response) \<times> 'w sys" where
  "fetchWithRetry env u maxRetries s = fetch_from env u maxRetries 1 s"

section \<open>discoverUrls\<close>

definition blockedDomains :: "string list" where
  "blockedDomains =
     [''google.com'', ''facebook.com'', ''twitter.com'', ''instagram.com'', ''linkedin.com'']"

text \<open>
  The test
  \<^verbatim>\<open>absoluteUrl.match(/\.(pdf|jpg|jpeg|png|gif|zip|exe|doc|docx|xls|xlsx|ppt|pptx|mp4|mp3|avi|mov)$/i)\<close>:
  the string ends with a dot and one of the extensions, in any case.
\<close>

definition skipped_extensions :: "string list" where
  "skipped_extensions =
     [''pdf'', ''jpg'', ''jpeg'', ''png'', ''gif'', ''zip'', ''exe'', ''doc'', ''docx'', ''xls'',
      ''xlsx'', ''ppt'', ''pptx'', ''mp4'', ''mp3'', ''avi'', ''mov'']"

definition has_skipped_extension :: "string \<Rightarrow> bool" where
  "has_skipped_extension u =
     list_ex (\<lambda>ext. endsWith (map ascii_lower u) (CHR ''.'' # ext)) skipped_extensions"

text \<open>The three local collections of \<open>discoverUrls\<close>.\<close>

record discovery =
  visitedUrls :: "string set"
  urlsToVisit :: "string list"
  discoveredUrls :: "string list"

text \<open>The four-way choice of \<open>absoluteUrl\<close> for one \<open>href\<close>.\<close>

definition absolute_url ::
  "('w, 'd) env \<Rightarrow> URL \<Rightarrow> string \<Rightarrow> string \<Rightarrow> js_exn + string" where
  "absolute_url env baseUrl currentUrl href =
     (if startsWith href ''http'' then Inr href
      else if startsWith href ''//'' then Inr (protocol baseUrl @ href)
      else if startsWith href ''/'' then Inr (protocol baseUrl @ ''//'' @ host baseUrl @ href)
      else resolve_url env href currentUrl)"

text \<open>The condition under which \<open>links.push(absoluteUrl)\<close> runs.\<close>

definition link_accepted :: "URL \<Rightarrow> string \<Rightarrow> discovery \<Rightarrow> string \<Rightarrow> bool" where
  "link_accepted urlObj baseDomain d absoluteUrl \<longleftrightarrow>
     hostname urlObj = baseDomain \<and>
     absoluteUrl \<notin> visitedUrls d \<and>
     absoluteUrl \<notin> set (urlsToVisit d) \<and>
     \<not> str_includes absoluteUrl ''#'' \<and>
     \<not> has_skipped_extension absoluteUrl \<and>
     \<not> str_includes absoluteUrl ''mailto:'' \<and>
     \<not> str_includes absoluteUrl ''tel:''"

text \<open>
  The callback of \<open>$("a[href]").each\<close> for one anchor: \<open>links\<close> before and after. An
  empty \<open>href\<close> and a URL that does not parse leave \<open>links\<close> as it is.
\<close>

definition scan_anchor ::
  "('w, 'd) env \<Rightarrow> URL \<Rightarrow> string \<Rightarrow> discovery \<Rightarrow> string list \<Rightarrow> string \<Rightarrow> string list" where
  "scan_anchor env baseUrl currentUrl d links href =
     (if href = [] then links
      else (case absolute_url env baseUrl currentUrl href of
              Inl e \<Rightarrow> links
            | Inr absoluteUrl \<Rightarrow>
                (case parse_url env absoluteUrl of
                   Inl e \<Rightarrow> links
                 | Inr urlObj \<Rightarrow>
                     if link_accepted urlObj (hostname baseUrl) d absoluteUrl
                     then links @ [absoluteUrl]
                     else links)))"

definition collect_links ::
  "('w, 'd) env \<Rightarrow> URL \<Rightarrow> string \<Rightarrow> discovery \<Rightarrow> string list \<Rightarrow> string list" where
  "collect_links env baseUrl currentUrl d hrefs =
     foldl (scan_anchor env baseUrl currentUrl d) [] hrefs"

text \<open>
  The \<open>try\<close> block of the loop body: the links to append to the queue,
  \<open>links.slice(0, 10)\<close>, or none when the fetch throws, the response is not ok, the
  body cannot be read or the document cannot be loaded (the \<open>catch\<close> is empty).
\<close>

definition page_links ::
  "('w, 'd) env \<Rightarrow> URL \<Rightarrow> string \<Rightarrow> discovery \<Rightarrow> 'w sys \<Rightarrow> string list \<times> 'w sys" where
  "page_links env baseUrl currentUrl d s =
     (case fetchWithRetry env currentUrl 2 s of (outcome, s') \<Rightarrow>
        (case outcome of
           Inl err \<Rightarrow> ([], s')
         | Inr response \<Rightarrow>
             if \<not> ok response then ([], s')
             else (case body_text response of
                     Inl err \<Rightarrow> ([], s')
                   | Inr html \<Rightarrow>
                       (case load env html of
                          Inl err \<Rightarrow> ([], s')
                        | Inr doc \<Rightarrow>
                            (take 10 (collect_links env baseUrl currentUrl d (anchor_hrefs env doc)),
                             s')))))"

text \<open>
  The part of the loop body before the \<open>try\<close>: with \<open>currentUrl\<close> shifted off the
  queue and not yet visited, it is added to the visited set and pushed on the
  discovered list.
\<close>

definition mark_discovered :: "string \<Rightarrow> string list \<Rightarrow> discovery \<Rightarrow> discovery" where
  "mark_discovered currentUrl rest d =
     d\<lparr>visitedUrls := insert currentUrl (visitedUrls d),
       urlsToVisit := rest,
       discoveredUrls := discoveredUrls d @ [currentUrl]\<rparr>"

text \<open>One iteration of the \<open>while\<close> loop (entered with a queue that is not empty).\<close>

definition discover_step ::
  "('w, 'd) env \<Rightarrow> URL \<Rightarrow> discovery \<Rightarrow> 'w sys \<Rightarrow> discovery \<times> 'w sys" where
  "discover_step env baseUrl d s =
     (case urlsToVisit d of
        [] \<Rightarrow> (d, s)
      | currentUrl # rest \<Rightarrow>
          if currentUrl \<in> visitedUrls d then (d\<lparr>urlsToVisit := rest\<rparr>, s)
          else (let d1 = mark_discovered currentUrl rest d in
                case page_links env baseUrl currentUrl d1 s of (links, s') \<Rightarrow>
                  (d1\<lparr>urlsToVisit := urlsToVisit d1 @ links\<rparr>, s')))"

text \<open>
  \<^verbatim>\<open>while (urlsToVisit.length > 0 && discoveredUrls.length < 50) { ... }
  return discoveredUrls\<close>
\<close>

function discover_loop ::
  "('w, 'd) env \<Rightarrow> URL \<Rightarrow> discovery \<Rightarrow> 'w sys \<Rightarrow> string list \<times> 'w sys" where
  "discover_loop env baseUrl d s =
     (if urlsToVisit d \<noteq> [] \<and> length (discoveredUrls d) < 50
      then discover_loop env baseUrl
             (fst (discover_step env baseUrl d s)) (snd (discover_step env baseUrl d s))
      else (discoveredUrls d, s))"
  by pat_completeness auto
termination
proof (relation "measures [\<lambda>(env, baseUrl, d, s). 50 - length (discoveredUrls d),
                           \<lambda>(env, baseUrl, d, s). length (urlsToVisit d)]", goal_cases)
  case 1
  show ?case by simp
next
  case (2 env baseUrl d s)
  then obtain currentUrl rest where q: "urlsToVisit d = currentUrl # rest"
    by (cases "urlsToVisit d") auto
  show ?case
  proof (cases "currentUrl \<in> visitedUrls d")
    case True
    then show ?thesis using q by (simp add: discover_step_def)
  next
    case False
    then have "length (discoveredUrls (fst (discover_step env baseUrl d s))) =
        Suc (length (discoveredUrls d))"
      using q by (simp add: discover_step_def mark_discovered_def Let_def split: prod.splits)
    moreover have "49 - length (discoveredUrls d) < 50 - length (discoveredUrls d)"
      using 2 by arith
    ultimately show ?thesis by (simp add: case_prod_beta)
  qed
qed

declare discover_loop.simps [simp del]

definition discoverUrls ::
  "('w, 'd) env \<Rightarrow> string \<Rightarrow> 'w sys \<Rightarrow> (js_exn + string list) \<times> 'w sys" where
  "discoverUrls env startUrl s =
     (case parse_url env startUrl of
        Inl e \<Rightarrow> (Inl e, s)
      | Inr baseUrl \<Rightarrow>
          if list_ex (\<lambda>domain. str_includes (hostname baseUrl) domain) blockedDomains
          then (Inl (Error (''The domain '' @ hostname baseUrl @
                  '' typically blocks automated crawling. Please try a different website like example.com, wikipedia.org, or your own website.'')),
                s)
          else (case discover_loop env baseUrl
                       \<lparr>visitedUrls = {}, urlsToVisit = [startUrl], discoveredUrls = []\<rparr> s of
                  (urls, s') \<Rightarrow> (Inr urls, s')))"

section \<open>Title and main content\<close>

text \<open>The global replacements of \<open>extractMainContent\<close>.\<close>

text \<open>\<open>.replace(/\s+/g, " ")\<close>: every maximal run of whitespace becomes one space.\<close>

function replace_space_runs :: "string \<Rightarrow> string" where
  "replace_space_runs [] = []"
| "replace_space_runs (c # cs) =
     (if is_space c then CHR 0x20 # replace_space_runs (dropWhile is_space cs)
      else c # replace_space_runs cs)"
  by pat_completeness auto
termination
  by (relation "measure length") (auto simp: length_dropWhile_le less_Suc_eq_le)

declare replace_space_runs.simps [simp del]

text \<open>
  \<open>.replace(/\n\s*\n/g, "\n")\<close>: at a line feed, \<open>\s*\<close> takes the whitespace that
  follows and gives back as little as it must for the second line feed to match, so
  the match runs to the last line feed of that whitespace; it becomes one line feed.
\<close>

function replace_blank_lines :: "string \<Rightarrow> string" where
  "replace_blank_lines [] = []"
| "replace_blank_lines (c # cs) =
     (if c = CHR 0x0A \<and> CHR 0x0A \<in> set (takeWhile is_space cs)
      then CHR 0x0A #
           replace_blank_lines
             (drop (length (takeWhile is_space cs) -
                    length (takeWhile (\<lambda>x. x \<noteq> CHR 0x0A) (rev (takeWhile is_space cs)))) cs)
      else c # replace_blank_lines cs)"
  by pat_completeness auto
termination
  by (relation "measure length") auto

declare replace_blank_lines.simps [simp del]

text \<open>\<open>.replace(/\t/g, " ")\<close>.\<close>

definition replace_tabs :: "string \<Rightarrow> string" where
  "replace_tabs s = map (\<lambda>c. if c = CHR 0x09 then CHR 0x20 else c) s"

text \<open>
  \<open>.replace(/phrase/gi, "")\<close> for a phrase of letters and spaces: every occurrence,
  found from left to right and in any case, is removed.
\<close>

function remove_phrase :: "string \<Rightarrow> string \<Rightarrow> string" where
  "remove_phrase phrase [] = []"
| "remove_phrase phrase (c # cs) =
     (if phrase \<noteq> [] \<and> startsWith (map ascii_lower (c # cs)) (map ascii_lower phrase)
      then remove_phrase phrase (drop (length phrase) (c # cs))
      else c # remove_phrase phrase cs)"
  by pat_completeness auto
termination
  by (relation "measure (\<lambda>(phrase, s). length s)") auto

declare remove_phrase.simps [simp del]

definition noise_selector :: string where
  "noise_selector =
     ''script, style, nav, header, footer, aside, .sidebar, .menu, .navigation, .nav, .header, .footer, .ads, .advertisement, .social, .share, .comments, .comment''"

definition contentSelectors :: "string list" where
  "contentSelectors =
     [''main'', ''article'', ''.main-content'', ''.content'', ''.post-content'', ''.entry-content'',
      ''.page-content'', ''#content'', ''#main'', ''.container .row'', ''.container'', ''body'']"

text \<open>
  The loop over \<open>contentSelectors\<close>: \<open>content\<close> takes the trimmed text of each
  selector that matches an element, and the loop stops at the first text longer than
  100 characters.
\<close>

fun select_content :: "('w, 'd) env \<Rightarrow> 'd \<Rightarrow> string list \<Rightarrow> string \<Rightarrow> string" where
  "select_content env doc [] found = found"
| "select_content env doc (selector # rest) found =
     (if select_count env doc selector > 0
      then (if length (trim (select_text env doc selector)) > 100
            then trim (select_text env doc selector)
            else select_content env doc rest (trim (select_text env doc selector)))
      else select_content env doc rest found)"

definition extractMainContent :: "('w, 'd) env \<Rightarrow> 'd \<Rightarrow> string" where
  "extractMainContent env doc0 =
     (let doc = remove env doc0 noise_selector;
          found = select_content env doc contentSelectors [];
          content = (if found = [] \<or> length found < 100
                     then trim (select_text env doc ''body'') else found);
          content = trim (replace_tabs (replace_blank_lines (replace_space_runs content)));
          content = remove_phrase ''Search'' (remove_phrase ''Menu''
                      (remove_phrase ''Skip to content''
                        (remove_phrase ''Skip to main content'' content)))
      in take 15000 content)"

text \<open>The title of \<open>crawlSinglePage\<close>, before it is cut to 200 characters.\<close>

definition page_title :: "('w, 'd) env \<Rightarrow> 'd \<Rightarrow> string" where
  "page_title env doc =
     (let t = trim (select_text env doc ''title'');
          t = (if t = [] then trim (select_first_text env doc ''h1'') else t);
          t = (if t = []
               then (case select_attr env doc (''meta[property='' @ [CHR 0x27] @ ''og:title'' @ [CHR 0x27] @ '']'') ''content'' of
                       None \<Rightarrow> [] | Some v \<Rightarrow> v)
               else t);
          t = (if t = []
               then (case select_attr env doc (''meta[name='' @ [CHR 0x27] @ ''title'' @ [CHR 0x27] @ '']'') ''content'' of
                       None \<Rightarrow> [] | Some v \<Rightarrow> v)
               else t)
      in if t = [] then ''Untitled Page'' else t)"

section \<open>crawlSinglePage\<close>

text \<open>
  The \<open>try\<close> block: the completed page, stored, or the value thrown on the way (by
  \<open>fetchWithRetry\<close>, by the \<open>throw\<close> on a response that is not ok, by reading the
  body, or by loading the document).
\<close>

definition crawl_attempt ::
  "('w, 'd) env \<Rightarrow> string \<Rightarrow> string \<Rightarrow> 'w sys \<Rightarrow> (js_exn + CrawledPage) \<times> 'w sys" where
  "crawl_attempt env u pageId s =
     (case fetchWithRetry env u 3 s of (outcome, s1) \<Rightarrow>
        (case outcome of
           Inl err \<Rightarrow> (Inl err, s1)
         | Inr response \<Rightarrow>
             if \<not> ok response
             then (Inl (Error (''HTTP '' @ show_nat (status_code response) @ '': '' @
                     statusText response)), s1)
             else (case body_text response of
                     Inl err \<Rightarrow> (Inl err, s1)
                   | Inr html \<Rightarrow>
                       (case load env html of
                          Inl err \<Rightarrow> (Inl err, s1)
                        | Inr doc \<Rightarrow>
                            (let t = page_title env doc;
                                 c = extractMainContent env doc
                             in case now_iso env (world s1) of (stamp, w) \<Rightarrow>
                                  (let completedPage =
                                     \<lparr>page_id = pageId, url = u, title = take 200 t, content = c,
                                      status = Completed, crawledAt = Some stamp, error = None,
                                      summary = Some (generateSummary c),
                                      wordCount = Some (wordCountOf c)\<rparr>
                                   in (Inr completedPage,
                                       storePage completedPage (s1\<lparr>world := w\<rparr>))))))))"

text \<open>
  The whole function: a fresh id, the \<open>try\<close> block, and the \<open>catch\<close> block, which
  builds the error page from the thrown value, stores it and returns it.
\<close>

definition crawlSinglePage ::
  "('w, 'd) env \<Rightarrow> string \<Rightarrow> 'w sys \<Rightarrow> (js_exn + CrawledPage) \<times> 'w sys" where
  "crawlSinglePage env u s =
     (case generateId env s of (pageId, s0) \<Rightarrow>
        (case crawl_attempt env u pageId s0 of (outcome, s1) \<Rightarrow>
           (case outcome of
              Inr completedPage \<Rightarrow> (Inr completedPage, s1)
            | Inl err \<Rightarrow>
                (case now_iso env (world s1) of (stamp, w) \<Rightarrow>
                   (let errorPage =
                      \<lparr>page_id = pageId, url = u, title = ''Error'', content = [],
                       status = ErrorStatus, crawledAt = Some stamp,
                       error = Some (message_of err), summary = None, wordCount = Some 0\<rparr>
                    in (Inr errorPage, storePage errorPage (s1\<lparr>world := w\<rparr>)))))))"

section \<open>crawlWebsite\<close>







section \<open>A small site to run the crawler on\<close>

text \<open>
  One environment for the concrete runs below. The home page of \<open>example.com\<close>
  answers 200 and carries six anchors: \<open>/about\<close> twice, a link to another host, a
  PDF, a fragment and \<open>/team\<close>. \<open>/missing\<close> answers 404. Every other request is
  rejected with a network error. The world is a counter that the random source
  advances.
\<close>

definition home_html :: string where
  "home_html =
     ''<html><body><main>Hello world. This works.</main><a href=/about>About</a></body></html>''"

definition example_com :: URL where
  "example_com = \<lparr>protocol = ''https:'', host = ''example.com'', hostname = ''example.com''\<rparr>"

definition site_fetch :: "string \<Rightarrow> nat \<Rightarrow> (js_exn + Response) \<times> nat" where
  "site_fetch u w =
     (if u = ''https://example.com/''
      then (Inr \<lparr>ok = True, status_code = 200, statusText = ''OK'', body_text = Inr home_html\<rparr>, w)
      else if u = ''https://example.com/missing''
      then (Inr \<lparr>ok = False, status_code = 404, statusText = ''Not Found'', body_text = Inr []\<rparr>, w)
      else (Inl (Error ''fetch failed''), w))"

definition site_parse_url :: "string \<Rightarrow> js_exn + URL" where
  "site_parse_url u =
     (if startsWith u ''https://example.com/'' then Inr example_com
      else if startsWith u ''https://www.google.com/''
      then Inr \<lparr>protocol = ''https:'', host = ''www.google.com'', hostname = ''www.google.com''\<rparr>
      else if startsWith u ''https://other.org/''
      then Inr \<lparr>protocol = ''https:'', host = ''other.org'', hostname = ''other.org''\<rparr>
      else Inl (Error ''Invalid URL''))"

definition site_hrefs :: "string \<Rightarrow> string list" where
  "site_hrefs doc =
     (if doc = home_html
      then [''/about'', ''/about'', ''https://other.org/'', ''/guide.PDF'', ''#top'', ''/team'']
      else [])"

definition site :: "(nat, string) env" where
  "site =
     \<lparr>fetch = site_fetch,
      parse_url = site_parse_url,
      resolve_url = (\<lambda>href base. Inr (base @ href)),
      load = (\<lambda>html. Inr html),
      anchor_hrefs = site_hrefs,
      select_count = (\<lambda>doc sel. if sel = ''main'' \<or> sel = ''body'' then 1 else 0),
      select_text = (\<lambda>doc sel. if doc = home_html then ''Hello world. This works.'' else []),
      select_first_text = (\<lambda>doc sel. []),
      select_attr = (\<lambda>doc sel name. None),
      remove = (\<lambda>doc sel. doc),
      random36 = (\<lambda>w. (''0.k'' @ show_nat w, w + 1)),
      now36 = (\<lambda>w. (''lq0'', w)),
      now_iso = (\<lambda>w. (''2024-05-01T12:00:00.000Z'', w))\<rparr>"



definition start :: "nat sys" where
  "start = \<lparr>world = 0, requests = [], pages = Map.empty, delivered = []\<rparr>"

text \<open>The state of \<open>discoverUrls\<close> when it enters its loop for the home page.\<close>

definition at_home :: discovery where
  "at_home = \<lparr>visitedUrls = {}, urlsToVisit = [''https://example.com/''], discoveredUrls = []\<rparr>"

text \<open>
  The state of the same run after the home page: it is visited and discovered, and
  its accepted links are queued.
\<close>

definition after_home :: discovery where
  "after_home =
     \<lparr>visitedUrls = {''https://example.com/''},
      urlsToVisit = [''https://example.com/about'', ''https://example.com/about'',
                     ''https://example.com/team''],
      discoveredUrls = [''https://example.com/'']\<rparr>"

section \<open>Reading a trace of events\<close>


section \<open>Facts about the string functions\<close>

lemma split_runs_Nil: "split_runs sep [] = [[]]"
  by (subst split_runs.simps) simp

lemma split_runs_sep:
  "sep c \<Longrightarrow> split_runs sep (c # cs) = [] # split_runs sep (dropWhile sep cs)"
  by (subst split_runs.simps) simp

lemma split_runs_nonsep:
  assumes c: "\<not> sep c"
  shows "split_runs sep (c # cs) = (c # hd (split_runs sep cs)) # tl (split_runs sep cs)"
proof -
  have L: "split_runs sep (c # cs) =
      (case dropWhile (\<lambda>c. \<not> sep c) cs of
         [] \<Rightarrow> [c # cs]
       | _ # rest \<Rightarrow> (c # takeWhile (\<lambda>c. \<not> sep c) cs) # split_runs sep (dropWhile sep rest))"
    using c by (subst split_runs.simps) (simp cong: list.case_cong)
  have R: "split_runs sep cs =
      (case dropWhile (\<lambda>c. \<not> sep c) cs of
         [] \<Rightarrow> [cs]
       | _ # rest \<Rightarrow> takeWhile (\<lambda>c. \<not> sep c) cs # split_runs sep (dropWhile sep rest))"
    by (rule split_runs.simps)
  show ?thesis
  proof (cases "dropWhile (\<lambda>c. \<not> sep c) cs")
    case Nil
    show ?thesis unfolding L R Nil by simp
  next
    case (Cons x rest)
    show ?thesis unfolding L R Cons by simp
  qed
qed

lemma filter_dropWhile_sep:
  "filter (\<lambda>c. \<not> sep c) (dropWhile sep s) = filter (\<lambda>c. \<not> sep c) s"
  by (induction s) simp_all

text \<open>
  The pieces of a split hold no separator, and together they are the characters of
  the string that are not separators, in order.
\<close>

lemma split_runs_pieces:
  "concat (split_runs sep s) = filter (\<lambda>c. \<not> sep c) s \<and>
   (\<forall>f \<in> set (split_runs sep s). \<forall>c \<in> set f. \<not> sep c)"
proof (induction sep s rule: split_runs.induct)
  case (1 sep s)
  show ?case
  proof (cases "dropWhile (\<lambda>c. \<not> sep c) s")
    case Nil
    then have "\<forall>c \<in> set s. \<not> sep c"
      by (simp only: dropWhile_eq_Nil_conv)
    moreover have "split_runs sep s = [s]"
      by (subst split_runs.simps) (simp only: Nil list.case)
    ultimately show ?thesis
      by (simp add: filter_id_conv)
  next
    case (Cons x rest)
    note IH = "1.IH" [OF Cons]
    have x: "sep x"
      by (metis Cons hd_dropWhile list.distinct(1) list.sel(1))
    have t: "\<forall>c \<in> set (takeWhile (\<lambda>c. \<not> sep c) s). \<not> sep c"
      by (auto dest: set_takeWhileD)
    have f1: "filter (\<lambda>c. \<not> sep c) (takeWhile (\<lambda>c. \<not> sep c) s) =
        takeWhile (\<lambda>c. \<not> sep c) s"
      using t by (simp add: filter_id_conv)
    have f2: "filter (\<lambda>c. \<not> sep c) (x # rest) = filter (\<lambda>c. \<not> sep c) (dropWhile sep rest)"
      using x by (simp add: filter_dropWhile_sep)
    have "filter (\<lambda>c. \<not> sep c)
          (takeWhile (\<lambda>c. \<not> sep c) s @ dropWhile (\<lambda>c. \<not> sep c) s) =
        takeWhile (\<lambda>c. \<not> sep c) s @ filter (\<lambda>c. \<not> sep c) (dropWhile sep rest)"
      by (simp only: Cons filter_append f1 f2)
    then have f: "filter (\<lambda>c. \<not> sep c) s =
        takeWhile (\<lambda>c. \<not> sep c) s @ filter (\<lambda>c. \<not> sep c) (dropWhile sep rest)"
      by (simp only: takeWhile_dropWhile_id)
    have r: "split_runs sep s =
        takeWhile (\<lambda>c. \<not> sep c) s # split_runs sep (dropWhile sep rest)"
      by (subst split_runs.simps) (simp only: Cons list.case)
    show ?thesis
    proof
      show "concat (split_runs sep s) = filter (\<lambda>c. \<not> sep c) s"
        by (simp only: r f concat.simps IH [THEN conjunct1])
      show "\<forall>f \<in> set (split_runs sep s). \<forall>c \<in> set f. \<not> sep c"
      proof (intro ballI)
        fix f c
        assume "f \<in> set (split_runs sep s)" and c: "c \<in> set f"
        then consider "f = takeWhile (\<lambda>c. \<not> sep c) s"
          | "f \<in> set (split_runs sep (dropWhile sep rest))"
          unfolding r by (meson set_ConsD)
        then show "\<not> sep c"
          using t IH c by cases blast+
      qed
    qed
  qed
qed

lemma spec_token_count_dropWhile:
  "spec_token_count True (dropWhile is_space s) = spec_token_count True s"
  by (induction s) simp_all

text \<open>
  The pieces of a split that are not empty are as many as the token starts; the
  pieces after the first one are as many as the token starts that follow a
  whitespace character of the string itself.
\<close>

lemma count_split_runs:
  "length (filter (\<lambda>w. length w > 0) (split_runs is_space s)) = spec_token_count True s \<and>
   length (filter (\<lambda>w. length w > 0) (tl (split_runs is_space s))) = spec_token_count False s"
proof (induction s rule: length_induct)
  case (1 s)
  show ?case
  proof (cases s)
    case Nil
    then show ?thesis by (simp add: split_runs_Nil)
  next
    case (Cons c cs)
    show ?thesis
    proof (cases "is_space c")
      case True
      have "length (dropWhile is_space cs) < length s"
        using Cons length_dropWhile_le [of is_space cs] by simp
      with 1 have "length (filter (\<lambda>w. length w > 0) (split_runs is_space (dropWhile is_space cs)))
          = spec_token_count True (dropWhile is_space cs)"
        by blast
      then show ?thesis
        using True Cons by (simp only: split_runs_sep spec_token_count_dropWhile) simp
    next
      case False
      have "length cs < length s" using Cons by simp
      with 1 have "length (filter (\<lambda>w. length w > 0) (tl (split_runs is_space cs))) =
          spec_token_count False cs"
        by blast
      moreover have "split_runs is_space (c # cs) =
          (c # hd (split_runs is_space cs)) # tl (split_runs is_space cs)"
        using False by (rule split_runs_nonsep)
      ultimately show ?thesis
        using False Cons by simp
    qed
  qed
qed

text \<open>\<open>startsWith\<close> and \<open>str_includes\<close> are the prefix and the substring relation.\<close>

lemma startsWith_iff: "startsWith s p \<longleftrightarrow> (\<exists>ys. s = p @ ys)"
  by (induction s p rule: startsWith.induct) auto

lemma str_includes_iff: "str_includes s p \<longleftrightarrow> (\<exists>xs ys. s = xs @ p @ ys)"
proof (induction s)
  case Nil
  then show ?case by simp
next
  case (Cons c cs)
  show ?case
  proof
    assume "str_includes (c # cs) p"
    then consider "startsWith (c # cs) p" | "str_includes cs p" by auto
    then show "\<exists>xs ys. c # cs = xs @ p @ ys"
    proof cases
      case 1
      then obtain ys where "c # cs = p @ ys" by (auto simp: startsWith_iff)
      then have "c # cs = [] @ p @ ys" by simp
      then show ?thesis by blast
    next
      case 2
      then obtain xs ys where "cs = xs @ p @ ys" using Cons by blast
      then have "c # cs = (c # xs) @ p @ ys" by simp
      then show ?thesis by blast
    qed
  next
    assume "\<exists>xs ys. c # cs = xs @ p @ ys"
    then obtain xs ys where e: "c # cs = xs @ p @ ys" by blast
    show "str_includes (c # cs) p"
    proof (cases xs)
      case Nil
      then have "startsWith (c # cs) p" using e by (auto simp: startsWith_iff)
      then show ?thesis by simp
    next
      case (Cons x xs')
      then have "cs = xs' @ p @ ys" using e by simp
      then have "str_includes cs p" using Cons.IH by blast
      then show ?thesis by simp
    qed
  qed
qed

section \<open>The summary\<close>

text \<open>
  Claim C8, as the code has it: for every content string, let the join be the first
  three fragments that have more than 20 characters after trimming, joined with a
  period and a space, and trimmed. When the join has at most 300 characters the
  summary is the join followed by one period; otherwise it is the first 300
  characters of the join followed by three periods. So the summary ends with a
  period and is at most 303 characters long: at most 301 in the first case, exactly
  303 in the second.
\<close>

theorem generateSummary_length_and_period:
  "(let joined = trim (join ''. ''
        (take 3 (filter (\<lambda>f. 20 < length (trim f)) (split_runs is_sentence_end c))))
    in generateSummary c =
         (if 300 < length joined then take 300 joined @ ''...'' else joined @ ''.'')) \<and>
   length (generateSummary c) \<le> 303 \<and>
   generateSummary c \<noteq> [] \<and>
   last (generateSummary c) = CHR ''.'' \<and>
   (length (generateSummary c) \<le> 301 \<or>
    length (generateSummary c) = 303 \<and> drop 300 (generateSummary c) = ''...'')"
  by (simp add: generateSummary_def Let_def)

theorem generateSummary_length_and_period_witness:
  "generateSummary ''The crawler reads every page of the site. It keeps the words!'' =
     ''The crawler reads every page of the site.'' \<and>
   length (generateSummary ''The crawler reads every page of the site. It keeps the words!'')
     \<le> 303 \<and>
   last (generateSummary ''The crawler reads every page of the site. It keeps the words!'') =
     CHR ''.''"
proof -
  have j: "trim (join ''. '' (take 3 (filter (\<lambda>f. 20 < length (trim f))
      (split_runs is_sentence_end
         ''The crawler reads every page of the site. It keeps the words!'')))) =
      ''The crawler reads every page of the site''"
    by code_simp
  show ?thesis
    using generateSummary_length_and_period
      [of "''The crawler reads every page of the site. It keeps the words!''"]
    by (simp add: j Let_def)
qed

text \<open>
  Claim C8 as it is stated fails: on a content of 301 letters and no punctuation the
  summary is 303 characters long, which is more than 300.
\<close>

theorem generateSummary_longer_than_300:
  "length (generateSummary (replicate 301 (CHR ''a''))) = 303 \<and>
   \<not> length (generateSummary (replicate 301 (CHR ''a''))) \<le> 300"
  by code_simp

text \<open>
  Claim C10: when no fragment between sentence-ending punctuation marks has more
  than 20 characters after trimming, the summary is the one-character string of a
  period; the empty content is such a string; and no summary is empty.
\<close>

theorem generateSummary_short_fragments:
  "((\<forall>f \<in> set (split_runs is_sentence_end c). length (trim f) \<le> 20) \<longrightarrow>
      generateSummary c = ''.'') \<and>
   generateSummary [] = ''.'' \<and>
   generateSummary c \<noteq> []"
proof (intro conjI impI)
  assume a: "\<forall>f \<in> set (split_runs is_sentence_end c). length (trim f) \<le> 20"
  have "filter (\<lambda>s. length (trim s) > 20) (split_runs is_sentence_end c) = []"
    using a by (auto simp: filter_empty_conv)
  then show "generateSummary c = ''.''"
    by (simp add: generateSummary_def trim_def)
next
  show "generateSummary [] = ''.''"
    by (simp add: generateSummary_def split_runs_Nil trim_def)
next
  show "generateSummary c \<noteq> []"
    by (simp add: generateSummary_def Let_def)
qed

theorem generateSummary_short_fragments_witness:
  "generateSummary ''Hello world. This works.'' = ''.'' \<and>
   generateSummary ''Hello world. This works.'' \<noteq> []"
proof -
  have h: "\<forall>f \<in> set (split_runs is_sentence_end ''Hello world. This works.'').
      length (trim f) \<le> 20"
    by code_simp
  show ?thesis
    using generateSummary_short_fragments [of "''Hello world. This works.''"] h by simp
qed

section \<open>The deny-list of discoverUrls\<close>

text \<open>
  Claim C2: when the seed parses and its hostname contains one of the five
  deny-listed domains as a substring, \<open>discoverUrls\<close> throws the error whose message
  names the hostname and suggests other sites, and the state is the one it started
  in: nothing was fetched.
\<close>

theorem discoverUrls_blocked_domain:
  assumes "parse_url env seed = Inr base"
    and "domain \<in> set blockedDomains"
    and "str_includes (hostname base) domain"
  shows "discoverUrls env seed s =
      (Inl (Error (''The domain '' @ hostname base @
         '' typically blocks automated crawling. Please try a different website like example.com, wikipedia.org, or your own website.'')),
       s)"
proof -
  have "list_ex (\<lambda>domain. str_includes (hostname base) domain) blockedDomains"
    using assms(2,3) by (auto simp: list_ex_iff)
  then show ?thesis
    using assms(1) by (simp add: discoverUrls_def)
qed

theorem discoverUrls_blocked_domain_witness:
  "fst (discoverUrls site ''https://www.google.com/'' start) =
      Inl (Error ''The domain www.google.com typically blocks automated crawling. Please try a different website like example.com, wikipedia.org, or your own website.'')
   \<and> requests (snd (discoverUrls site ''https://www.google.com/'' start)) = []"
proof -
  have p: "parse_url site ''https://www.google.com/'' =
      Inr \<lparr>protocol = ''https:'', host = ''www.google.com'', hostname = ''www.google.com''\<rparr>"
    by (simp add: site_def site_parse_url_def)
  have m: "''google.com'' \<in> set blockedDomains"
    by (simp add: blockedDomains_def)
  have i: "str_includes
      (hostname \<lparr>protocol = ''https:'', host = ''www.google.com'', hostname = ''www.google.com''\<rparr>)
      ''google.com''"
    by simp
  show ?thesis
    using discoverUrls_blocked_domain [OF p m i, of start] by (simp add: start_def)
qed

section \<open>The home page of the small site\<close>

text \<open>What the crawl of the home page computes, step by step.\<close>

lemma site_home_content:
  "extractMainContent site home_html = ''Hello world. This works.''"
proof -
  have r: "remove site home_html noise_selector = home_html"
    by (simp add: site_def)
  have f: "select_content site home_html contentSelectors [] = ''Hello world. This works.''"
    by code_simp
  have b: "trim (select_text site home_html ''body'') = ''Hello world. This works.''"
    by code_simp
  have n: "trim (replace_tabs (replace_blank_lines (replace_space_runs ''Hello world. This works.'')))
      = ''Hello world. This works.''"
    by code_simp
  have p: "remove_phrase ''Search'' (remove_phrase ''Menu'' (remove_phrase ''Skip to content''
      (remove_phrase ''Skip to main content'' ''Hello world. This works.''))) =
      ''Hello world. This works.''"
    by code_simp
  have "take 15000 ''Hello world. This works.'' = ''Hello world. This works.''"
    by simp
  then show ?thesis
    by (simp only: extractMainContent_def Let_def r f b if_cancel n p)
qed

lemma site_home_fetch:
  "fetchWithRetry site ''https://example.com/'' 3 s =
     (Inr \<lparr>ok = True, status_code = 200, statusText = ''OK'', body_text = Inr home_html\<rparr>,
      s\<lparr>requests := requests s @ [''https://example.com/'']\<rparr>)"
  unfolding fetchWithRetry_def
  by (subst fetch_from.simps) (simp add: site_def site_fetch_def)

lemma site_home_page:
  "fst (crawlSinglePage site ''https://example.com/'' start) =
     Inr \<lparr>page_id = ''k0lq0'', url = ''https://example.com/'',
          title = ''Hello world. This works.'', content = ''Hello world. This works.'',
          status = Completed, crawledAt = Some ''2024-05-01T12:00:00.000Z'', error = None,
          summary = Some ''.'', wordCount = Some 4\<rparr>"
proof -
  have g: "generateId site start = (''k0lq0'', start\<lparr>world := 1\<rparr>)"
    by (simp add: generateId_def site_def start_def show_nat.simps digit_char_def)
  have t: "page_title site home_html = ''Hello world. This works.''"
    by code_simp
  have y: "generateSummary ''Hello world. This works.'' = ''.''"
    by code_simp
  have c: "wordCountOf ''Hello world. This works.'' = 4"
    by code_simp
  have l: "load site home_html = Inr home_html" "now_iso site w = (''2024-05-01T12:00:00.000Z'', w)" for w
    by (simp_all add: site_def)
  show ?thesis
    by (simp add: crawlSinglePage_def g crawl_attempt_def site_home_fetch l t site_home_content y c
        Let_def)
qed

section \<open>Facts about crawlSinglePage\<close>

text \<open>The \<open>try\<close> block throws, or it returns a completed page that it has stored.\<close>

lemma crawl_attempt_result:
  "(\<exists>err. fst (crawl_attempt env u pageId s) = Inl err) \<or>
   (\<exists>p. fst (crawl_attempt env u pageId s) = Inr p \<and>
      pages (snd (crawl_attempt env u pageId s)) (page_id p) = Some p \<and>
      page_id p = pageId \<and> url p = u \<and> status p = Completed \<and> crawledAt p \<noteq> None \<and>
      error p = None \<and> wordCount p = Some (wordCountOf (content p)))"
proof -
  obtain outcome s1 where f: "fetchWithRetry env u 3 s = (outcome, s1)"
    by (cases "fetchWithRetry env u 3 s")
  show ?thesis
  proof (cases outcome)
    case (Inl err)
    then show ?thesis by (simp add: crawl_attempt_def f)
  next
    case (Inr response)
    note r = this
    show ?thesis
    proof (cases "ok response")
      case False
      then show ?thesis by (simp add: crawl_attempt_def f r)
    next
      case True
      note k = this
      show ?thesis
      proof (cases "body_text response")
        case (Inl err)
        then show ?thesis by (simp add: crawl_attempt_def f r k)
      next
        case (Inr html)
        note b = this
        show ?thesis
        proof (cases "load env html")
          case (Inl err)
          then show ?thesis by (simp add: crawl_attempt_def f r k b)
        next
          case (Inr doc)
          obtain stamp w where n: "now_iso env (world s1) = (stamp, w)"
            by (cases "now_iso env (world s1)")
          show ?thesis
            by (simp add: crawl_attempt_def f r k b Inr n storePage_def Let_def)
        qed
      qed
    qed
  qed
qed


text \<open>The four ways in which the \<open>try\<close> block throws.\<close>

lemma crawl_attempt_throws:
  "(fst (fetchWithRetry env u 3 s) = Inl err \<longrightarrow> fst (crawl_attempt env u pageId s) = Inl err) \<and>
   (fst (fetchWithRetry env u 3 s) = Inr r \<and> \<not> ok r \<longrightarrow>
      fst (crawl_attempt env u pageId s) =
        Inl (Error (''HTTP '' @ show_nat (status_code r) @ '': '' @ statusText r))) \<and>
   (fst (fetchWithRetry env u 3 s) = Inr r \<and> ok r \<and> body_text r = Inl err \<longrightarrow>
      fst (crawl_attempt env u pageId s) = Inl err) \<and>
   (fst (fetchWithRetry env u 3 s) = Inr r \<and> ok r \<and> body_text r = Inr html \<and>
      load env html = Inl err \<longrightarrow>
      fst (crawl_attempt env u pageId s) = Inl err)"
proof -
  obtain outcome s1 where f: "fetchWithRetry env u 3 s = (outcome, s1)"
    by (cases "fetchWithRetry env u 3 s")
  show ?thesis
    by (cases outcome) (auto simp: crawl_attempt_def f)
qed


text \<open>
  Claim C3: \<open>crawlSinglePage\<close> always returns a page record (the outcome is never a
  thrown value), the record is in the store under its id when the function returns,
  it is about the URL asked for and carries a timestamp. When the \<open>try\<close> block
  throws \<open>err\<close>, the record has status \<open>error\<close>, empty content, word count 0 and the
  message read from \<open>err\<close>; otherwise it is the completed page of the \<open>try\<close> block.
  The \<open>try\<close> block throws when \<open>fetchWithRetry\<close> throws, when the response is not ok
  (the message is then \<open>HTTP\<close>, the status and the status text), when reading the
  body throws and when loading the document throws.
\<close>

theorem crawlSinglePage_captures_failures:
  "(\<exists>p. fst (crawlSinglePage env u s) = Inr p \<and>
        pages (snd (crawlSinglePage env u s)) (page_id p) = Some p \<and>
        url p = u \<and> crawledAt p \<noteq> None \<and>
        (case fst (crawl_attempt env u (fst (generateId env s)) (snd (generateId env s))) of
           Inl err \<Rightarrow> status p = ErrorStatus \<and> content p = [] \<and> wordCount p = Some 0 \<and>
                      error p = Some (message_of err)
         | Inr q \<Rightarrow> p = q \<and> status p = Completed \<and> error p = None)) \<and>
   (fst (fetchWithRetry env u 3 s0) = Inl err \<longrightarrow>
      fst (crawl_attempt env u pageId s0) = Inl err) \<and>
   (fst (fetchWithRetry env u 3 s0) = Inr r \<and> \<not> ok r \<longrightarrow>
      fst (crawl_attempt env u pageId s0) =
        Inl (Error (''HTTP '' @ show_nat (status_code r) @ '': '' @ statusText r))) \<and>
   (fst (fetchWithRetry env u 3 s0) = Inr r \<and> ok r \<and> body_text r = Inl err \<longrightarrow>
      fst (crawl_attempt env u pageId s0) = Inl err) \<and>
   (fst (fetchWithRetry env u 3 s0) = Inr r \<and> ok r \<and> body_text r = Inr html \<and>
      load env html = Inl err \<longrightarrow>
      fst (crawl_attempt env u pageId s0) = Inl err)"
proof -
  obtain pageId' s0' where g: "generateId env s = (pageId', s0')" by (cases "generateId env s")
  obtain outcome s1 where a: "crawl_attempt env u pageId' s0' = (outcome, s1)"
    by (cases "crawl_attempt env u pageId' s0'")
  have "\<exists>p. fst (crawlSinglePage env u s) = Inr p \<and>
        pages (snd (crawlSinglePage env u s)) (page_id p) = Some p \<and>
        url p = u \<and> crawledAt p \<noteq> None \<and>
        (case fst (crawl_attempt env u (fst (generateId env s)) (snd (generateId env s))) of
           Inl err \<Rightarrow> status p = ErrorStatus \<and> content p = [] \<and> wordCount p = Some 0 \<and>
                      error p = Some (message_of err)
         | Inr q \<Rightarrow> p = q \<and> status p = Completed \<and> error p = None)"
  proof (cases outcome)
    case (Inl err)
    obtain stamp w where n: "now_iso env (world s1) = (stamp, w)"
      by (cases "now_iso env (world s1)")
    show ?thesis
      by (simp add: crawlSinglePage_def g a Inl n storePage_def Let_def)
  next
    case (Inr q)
    with crawl_attempt_result [of env u pageId' s0'] a
    have "pages s1 (page_id q) = Some q \<and> url q = u \<and> status q = Completed \<and>
        crawledAt q \<noteq> None \<and> error q = None"
      by auto
    then show ?thesis
      by (simp add: crawlSinglePage_def g a Inr)
  qed
  then show ?thesis
    using crawl_attempt_throws [of env u s0 err pageId r html] by blast
qed

theorem crawlSinglePage_captures_failures_witness:
  "\<exists>p. fst (crawlSinglePage site ''https://example.com/missing'' start) = Inr p \<and>
       pages (snd (crawlSinglePage site ''https://example.com/missing'' start)) (page_id p) = Some p \<and>
       status p = ErrorStatus \<and> content p = [] \<and> wordCount p = Some 0 \<and>
       error p = Some ''HTTP 404: Not Found'' \<and> crawledAt p \<noteq> None"
proof -
  have e: "fst (crawl_attempt site ''https://example.com/missing''
      (fst (generateId site start)) (snd (generateId site start))) =
      Inl (Error ''HTTP 404: Not Found'')"
    by code_simp
  show ?thesis
    using crawlSinglePage_captures_failures
      [of site "''https://example.com/missing''" start, THEN conjunct1]
    by (auto simp: e message_of_def)
qed

section \<open>The word count\<close>

lemma wordCountOf_spec: "wordCountOf c = spec_token_count True c"
  using count_split_runs [of c] by (simp add: wordCountOf_def)


text \<open>
  Claim C9: for every content string the word count of the code, the number of
  non-empty pieces of the split on runs of whitespace, is the number of
  whitespace-delimited tokens of the string; and the word count stored in a page
  record that \<open>crawlSinglePage\<close> returns is that number for the content stored in the
  same record.
\<close>

theorem wordCount_is_token_count:
  "wordCountOf c = spec_token_count True c \<and>
   (\<forall>p. fst (crawlSinglePage env u s) = Inr p \<longrightarrow>
      wordCount p = Some (spec_token_count True (content p)))"
proof (intro conjI allI impI)
  show "wordCountOf c = spec_token_count True c" by (rule wordCountOf_spec)
next
  fix p
  assume r: "fst (crawlSinglePage env u s) = Inr p"
  obtain pageId s0 where g: "generateId env s = (pageId, s0)" by (cases "generateId env s")
  obtain outcome s1 where a: "crawl_attempt env u pageId s0 = (outcome, s1)"
    by (cases "crawl_attempt env u pageId s0")
  show "wordCount p = Some (spec_token_count True (content p))"
  proof (cases outcome)
    case (Inl err)
    obtain stamp w where n: "now_iso env (world s1) = (stamp, w)"
      by (cases "now_iso env (world s1)")
    show ?thesis
      using r by (auto simp: crawlSinglePage_def g a Inl n Let_def)
  next
    case (Inr q)
    with crawl_attempt_result [of env u pageId s0] a
    have "wordCount q = Some (wordCountOf (content q))"
      by auto
    then show ?thesis
      using r by (simp add: crawlSinglePage_def g a Inr wordCountOf_spec)
  qed
qed

theorem wordCount_is_token_count_witness:
  "wordCountOf ''  Hello   world. This works.  '' = 4 \<and>
   spec_token_count True ''  Hello   world. This works.  '' = 4 \<and>
   (\<exists>p. fst (crawlSinglePage site ''https://example.com/'' start) = Inr p \<and>
        content p = ''Hello world. This works.'' \<and> wordCount p = Some 4)"
proof -
  have t: "spec_token_count True ''  Hello   world. This works.  '' = 4"
    by (simp add: is_space_def)
  have t': "spec_token_count True ''Hello world. This works.'' = 4"
    by (simp add: is_space_def)
  show ?thesis
    using wordCount_is_token_count
      [of "''  Hello   world. This works.  ''" site "''https://example.com/''" start]
      site_home_page t t'
    by simp
qed

section \<open>Facts about the discovery loop\<close>

lemma discover_step_visited:
  "urlsToVisit d = u # rest \<Longrightarrow> u \<in> visitedUrls d \<Longrightarrow>
   discover_step env b d s = (d\<lparr>urlsToVisit := rest\<rparr>, s)"
  by (simp add: discover_step_def)

lemma discover_step_new:
  "urlsToVisit d = u # rest \<Longrightarrow> u \<notin> visitedUrls d \<Longrightarrow>
   discover_step env b d s =
     ((mark_discovered u rest d)
        \<lparr>urlsToVisit := rest @ fst (page_links env b u (mark_discovered u rest d) s)\<rparr>,
      snd (page_links env b u (mark_discovered u rest d) s))"
  by (simp add: discover_step_def Let_def mark_discovered_def case_prod_beta)

lemma discover_loop_unfold:
  "urlsToVisit d \<noteq> [] \<Longrightarrow> length (discoveredUrls d) < 50 \<Longrightarrow>
   discover_loop env b d s =
     discover_loop env b (fst (discover_step env b d s)) (snd (discover_step env b d s))"
  by (subst discover_loop.simps) simp

lemma discover_loop_stop:
  "\<not> (urlsToVisit d \<noteq> [] \<and> length (discoveredUrls d) < 50) \<Longrightarrow>
   discover_loop env b d s = (discoveredUrls d, s)"
  by (subst discover_loop.simps) auto

lemma discover_step_extends:
  assumes "urlsToVisit d \<noteq> []"
  shows "\<exists>zs. discoveredUrls (fst (discover_step env b d s)) = discoveredUrls d @ zs"
proof -
  obtain u rest where q: "urlsToVisit d = u # rest"
    using assms by (cases "urlsToVisit d") auto
  show ?thesis
    by (cases "u \<in> visitedUrls d")
      (simp_all add: discover_step_visited [OF q] discover_step_new [OF q] mark_discovered_def)
qed

lemma discover_loop_extends:
  "\<exists>ys. fst (discover_loop env b d s) = discoveredUrls d @ ys"
proof (induction env b d s rule: discover_loop.induct)
  case (1 env b d s)
  show ?case
  proof (cases "urlsToVisit d \<noteq> [] \<and> length (discoveredUrls d) < 50")
    case False
    then show ?thesis by (simp add: discover_loop_stop)
  next
    case True
    from "1.IH" [OF True] obtain ys where
      "fst (discover_loop env b (fst (discover_step env b d s)) (snd (discover_step env b d s))) =
         discoveredUrls (fst (discover_step env b d s)) @ ys"
      by blast
    moreover obtain zs where "discoveredUrls (fst (discover_step env b d s)) = discoveredUrls d @ zs"
      using discover_step_extends True by blast
    ultimately show ?thesis
      using True by (simp add: discover_loop_unfold)
  qed
qed

lemma discover_step_keeps_invariant:
  assumes "urlsToVisit d \<noteq> []" and "length (discoveredUrls d) < 50"
    and "distinct (discoveredUrls d)" and "set (discoveredUrls d) \<subseteq> visitedUrls d"
  shows "distinct (discoveredUrls (fst (discover_step env b d s))) \<and>
         set (discoveredUrls (fst (discover_step env b d s))) \<subseteq>
           visitedUrls (fst (discover_step env b d s)) \<and>
         length (discoveredUrls (fst (discover_step env b d s))) \<le> 50"
proof -
  obtain u rest where q: "urlsToVisit d = u # rest"
    using assms(1) by (cases "urlsToVisit d") auto
  show ?thesis
  proof (cases "u \<in> visitedUrls d")
    case True
    then show ?thesis using assms by (simp add: discover_step_visited [OF q])
  next
    case False
    then show ?thesis using assms
      by (auto simp: discover_step_new [OF q] mark_discovered_def)
  qed
qed

lemma discover_loop_invariant:
  "distinct (discoveredUrls d) \<Longrightarrow> set (discoveredUrls d) \<subseteq> visitedUrls d \<Longrightarrow>
   length (discoveredUrls d) \<le> 50 \<Longrightarrow>
   distinct (fst (discover_loop env b d s)) \<and> length (fst (discover_loop env b d s)) \<le> 50"
proof (induction env b d s rule: discover_loop.induct)
  case (1 env b d s)
  show ?case
  proof (cases "urlsToVisit d \<noteq> [] \<and> length (discoveredUrls d) < 50")
    case False
    then show ?thesis using "1.prems" by (simp add: discover_loop_stop)
  next
    case True
    have "distinct (discoveredUrls (fst (discover_step env b d s))) \<and>
         set (discoveredUrls (fst (discover_step env b d s))) \<subseteq>
           visitedUrls (fst (discover_step env b d s)) \<and>
         length (discoveredUrls (fst (discover_step env b d s))) \<le> 50"
      using True "1.prems" by (intro discover_step_keeps_invariant) simp_all
    then show ?thesis
      using "1.IH" [OF True] True by (simp add: discover_loop_unfold)
  qed
qed


lemma discoverUrls_starts_with_seed:
  assumes "fst (discoverUrls env seed s) = Inr urls"
  shows "\<exists>ys. urls = seed # ys"
proof -
  obtain base where p: "parse_url env seed = Inr base"
    using assms by (cases "parse_url env seed") (simp_all add: discoverUrls_def)
  define d0 where "d0 = \<lparr>visitedUrls = {}, urlsToVisit = [seed], discoveredUrls = []\<rparr>"
  have u: "urls = fst (discover_loop env base d0 s)"
    using assms p by (simp add: discoverUrls_def d0_def case_prod_beta split: if_splits)
  have "discover_step env base d0 s =
      ((mark_discovered seed [] d0)
         \<lparr>urlsToVisit := [] @ fst (page_links env base seed (mark_discovered seed [] d0) s)\<rparr>,
       snd (page_links env base seed (mark_discovered seed [] d0) s))"
    by (rule discover_step_new) (simp_all add: d0_def)
  then have first: "discoveredUrls (fst (discover_step env base d0 s)) = [seed]"
    by (simp add: mark_discovered_def d0_def)
  have "discover_loop env base d0 s =
      discover_loop env base (fst (discover_step env base d0 s)) (snd (discover_step env base d0 s))"
    by (rule discover_loop_unfold) (simp_all add: d0_def)
  with discover_loop_extends [of env base "fst (discover_step env base d0 s)"
      "snd (discover_step env base d0 s)"] first
  show ?thesis
    unfolding u by auto
qed

text \<open>The run of \<open>discoverUrls\<close> on the small site.\<close>

lemma site_discovery:
  "fst (discoverUrls site ''https://example.com/'' start) =
     Inr [''https://example.com/'', ''https://example.com/about'', ''https://example.com/team'']"
  by code_simp


text \<open>
  Claim C1: when \<open>discoverUrls\<close> returns a list, the list has at most 50 URLs, has
  no URL twice, and starts with the seed URL.
\<close>

theorem discoverUrls_result:
  assumes "fst (discoverUrls env seed s) = Inr urls"
  shows "length urls \<le> 50 \<and> distinct urls \<and> urls \<noteq> [] \<and> hd urls = seed"
proof -
  obtain base where p: "parse_url env seed = Inr base"
    using assms by (cases "parse_url env seed") (simp_all add: discoverUrls_def)
  define d0 where "d0 = \<lparr>visitedUrls = {}, urlsToVisit = [seed], discoveredUrls = []\<rparr>"
  have u: "urls = fst (discover_loop env base d0 s)"
    using assms p by (simp add: discoverUrls_def d0_def case_prod_beta split: if_splits)
  have inv: "distinct urls \<and> length urls \<le> 50"
    unfolding u by (rule discover_loop_invariant) (simp_all add: d0_def)
  obtain ys where "urls = seed # ys"
    using discoverUrls_starts_with_seed [OF assms] by blast
  then show ?thesis using inv by simp
qed

theorem discoverUrls_result_witness:
  "fst (discoverUrls site ''https://example.com/'' start) =
     Inr [''https://example.com/'', ''https://example.com/about'', ''https://example.com/team''] \<and>
   length [''https://example.com/'', ''https://example.com/about'', ''https://example.com/team'']
     \<le> 50 \<and>
   distinct [''https://example.com/'', ''https://example.com/about'', ''https://example.com/team''] \<and>
   hd [''https://example.com/'', ''https://example.com/about'', ''https://example.com/team''] =
     ''https://example.com/''"
  using discoverUrls_result [OF site_discovery] site_discovery by simp

section \<open>Failures during discovery\<close>

text \<open>The four ways in which the \<open>try\<close> block of the loop body yields no links.\<close>

lemma page_links_failure:
  "(fst (fetchWithRetry env u 2 s) = Inl err \<longrightarrow>
      page_links env b u d s = ([], snd (fetchWithRetry env u 2 s))) \<and>
   (fst (fetchWithRetry env u 2 s) = Inr r \<and> \<not> ok r \<longrightarrow>
      page_links env b u d s = ([], snd (fetchWithRetry env u 2 s))) \<and>
   (fst (fetchWithRetry env u 2 s) = Inr r \<and> body_text r = Inl err \<longrightarrow>
      page_links env b u d s = ([], snd (fetchWithRetry env u 2 s))) \<and>
   (fst (fetchWithRetry env u 2 s) = Inr r \<and> body_text r = Inr html \<and> load env html = Inl err \<longrightarrow>
      page_links env b u d s = ([], snd (fetchWithRetry env u 2 s)))"
proof -
  obtain outcome s1 where f: "fetchWithRetry env u 2 s = (outcome, s1)"
    by (cases "fetchWithRetry env u 2 s")
  show ?thesis
    by (cases outcome) (auto simp: page_links_def f)
qed


text \<open>
  Claim C7: let the front of the queue be a URL that is not yet visited, with room
  left in the result. The iteration marks it visited and appends it to the
  discovered list whatever its fetch does: the fetch runs on the state after the
  marking. The loop goes on from the state the iteration leaves, and the URL is in
  the list the loop returns. When the fetch throws, the response is not ok, the body
  cannot be read or the document cannot be loaded, the iteration leaves the marked
  state with the rest of the queue and nothing else: nothing is thrown and no link
  is added. A run of \<open>discoverUrls\<close> whose seed parses and is not on the deny-list
  returns a list, whatever the fetches do.
\<close>

theorem dequeued_url_is_discovered:
  assumes q: "urlsToVisit d = u # rest"
    and nv: "u \<notin> visitedUrls d"
    and room: "length (discoveredUrls d) < 50"
  shows
    "visitedUrls (fst (discover_step env b d s)) = insert u (visitedUrls d) \<and>
     discoveredUrls (fst (discover_step env b d s)) = discoveredUrls d @ [u] \<and>
     snd (discover_step env b d s) = snd (page_links env b u (mark_discovered u rest d) s) \<and>
     discover_loop env b d s =
       discover_loop env b (fst (discover_step env b d s)) (snd (discover_step env b d s)) \<and>
     u \<in> set (fst (discover_loop env b d s)) \<and>
     ((\<exists>err. fst (fetchWithRetry env u 2 s) = Inl err) \<or>
      (\<exists>r. fst (fetchWithRetry env u 2 s) = Inr r \<and>
         (\<not> ok r \<or> (\<exists>err. body_text r = Inl err) \<or>
          (\<exists>html err. body_text r = Inr html \<and> load env html = Inl err))) \<longrightarrow>
      discover_step env b d s = (mark_discovered u rest d, snd (fetchWithRetry env u 2 s))) \<and>
     (parse_url env seed = Inr base \<and>
      \<not> list_ex (\<lambda>domain. str_includes (hostname base) domain) blockedDomains \<longrightarrow>
      (\<exists>urls. fst (discoverUrls env seed s0) = Inr urls))"
proof -
  note step = discover_step_new [OF q nv, of env b s]
  have total: "\<exists>urls. fst (discoverUrls env seed s0) = Inr urls"
    if "parse_url env seed = Inr base"
      and "\<not> list_ex (\<lambda>domain. str_includes (hostname base) domain) blockedDomains"
    using that by (simp add: discoverUrls_def case_prod_beta)
  have unfold: "discover_loop env b d s =
      discover_loop env b (fst (discover_step env b d s)) (snd (discover_step env b d s))"
    using q room by (intro discover_loop_unfold) simp_all
  have disc: "discoveredUrls (fst (discover_step env b d s)) = discoveredUrls d @ [u]"
    by (simp add: step mark_discovered_def)
  obtain ys where "fst (discover_loop env b d s) = (discoveredUrls d @ [u]) @ ys"
    using discover_loop_extends
      [of env b "fst (discover_step env b d s)" "snd (discover_step env b d s)"]
    unfolding unfold [symmetric] disc by blast
  then have mem: "u \<in> set (fst (discover_loop env b d s))"
    by simp
  have fail: "discover_step env b d s = (mark_discovered u rest d, snd (fetchWithRetry env u 2 s))"
    if "page_links env b u (mark_discovered u rest d) s = ([], snd (fetchWithRetry env u 2 s))"
    using that by (simp add: step mark_discovered_def)
  have "visitedUrls (fst (discover_step env b d s)) = insert u (visitedUrls d) \<and>
     discoveredUrls (fst (discover_step env b d s)) = discoveredUrls d @ [u] \<and>
     snd (discover_step env b d s) = snd (page_links env b u (mark_discovered u rest d) s) \<and>
     discover_loop env b d s =
       discover_loop env b (fst (discover_step env b d s)) (snd (discover_step env b d s)) \<and>
     u \<in> set (fst (discover_loop env b d s)) \<and>
     ((\<exists>err. fst (fetchWithRetry env u 2 s) = Inl err) \<or>
      (\<exists>r. fst (fetchWithRetry env u 2 s) = Inr r \<and>
         (\<not> ok r \<or> (\<exists>err. body_text r = Inl err) \<or>
          (\<exists>html err. body_text r = Inr html \<and> load env html = Inl err))) \<longrightarrow>
      discover_step env b d s = (mark_discovered u rest d, snd (fetchWithRetry env u 2 s)))"
    using unfold disc mem fail
      page_links_failure [of env u s _ b "mark_discovered u rest d"]
    by (auto simp: step mark_discovered_def)
  then show ?thesis
    using total by blast
qed

theorem dequeued_url_is_discovered_witness:
  "fst (fetchWithRetry site ''https://example.com/about'' 2 start) = Inl (Error ''fetch failed'') \<and>
   discoveredUrls (fst (discover_step site example_com after_home start)) =
     [''https://example.com/'', ''https://example.com/about''] \<and>
   urlsToVisit (fst (discover_step site example_com after_home start)) =
     [''https://example.com/about'', ''https://example.com/team''] \<and>
   ''https://example.com/about'' \<in> set (fst (discover_loop site example_com after_home start))"
proof -
  have f: "fst (fetchWithRetry site ''https://example.com/about'' 2 start) =
      Inl (Error ''fetch failed'')"
    by code_simp
  have q: "urlsToVisit after_home =
      ''https://example.com/about'' # [''https://example.com/about'', ''https://example.com/team'']"
    by (simp add: after_home_def)
  have nv: "''https://example.com/about'' \<notin> visitedUrls after_home"
    by (simp add: after_home_def)
  have room: "length (discoveredUrls after_home) < 50"
    by (simp add: after_home_def)
  note w = dequeued_url_is_discovered [OF q nv room, of site example_com start]
  have d: "discoveredUrls (fst (discover_step site example_com after_home start)) =
      discoveredUrls after_home @ [''https://example.com/about'']"
    using w by blast
  have m: "''https://example.com/about'' \<in>
      set (fst (discover_loop site example_com after_home start))"
    using w by blast
  have "discover_step site example_com after_home start =
      (mark_discovered ''https://example.com/about''
         [''https://example.com/about'', ''https://example.com/team''] after_home,
       snd (fetchWithRetry site ''https://example.com/about'' 2 start))"
    using w f by blast
  then have r: "urlsToVisit (fst (discover_step site example_com after_home start)) =
      [''https://example.com/about'', ''https://example.com/team'']"
    by (simp add: mark_discovered_def)
  have "discoveredUrls after_home @ [''https://example.com/about''] =
      [''https://example.com/'', ''https://example.com/about'']"
    by (simp add: after_home_def)
  then show ?thesis
    using f d m r by simp
qed


section \<open>Links that occur twice on a page\<close>

lemma scan_anchor_adds:
  "a \<in> set (scan_anchor env b u d links href) \<Longrightarrow>
   a \<in> set links \<or>
   (a \<notin> visitedUrls d \<and> a \<notin> set (urlsToVisit d) \<and> \<not> str_includes a ''#'' \<and>
    \<not> has_skipped_extension a \<and> \<not> str_includes a ''mailto:'' \<and> \<not> str_includes a ''tel:'' \<and>
    (\<exists>parsed. parse_url env a = Inr parsed \<and> hostname parsed = hostname b))"
  by (auto simp: scan_anchor_def link_accepted_def split: if_splits sum.splits)

lemma foldl_scan_anchor_adds:
  "a \<in> set (foldl (scan_anchor env b u d) links hrefs) \<Longrightarrow>
   a \<in> set links \<or>
   (a \<notin> visitedUrls d \<and> a \<notin> set (urlsToVisit d) \<and> \<not> str_includes a ''#'' \<and>
    \<not> has_skipped_extension a \<and> \<not> str_includes a ''mailto:'' \<and> \<not> str_includes a ''tel:'' \<and>
    (\<exists>parsed. parse_url env a = Inr parsed \<and> hostname parsed = hostname b))"
proof (induction hrefs arbitrary: links)
  case Nil
  then show ?case by simp
next
  case (Cons href hrefs)
  from Cons.prems have "a \<in> set (foldl (scan_anchor env b u d) (scan_anchor env b u d links href) hrefs)"
    by simp
  from Cons.IH [OF this] show ?case
    using scan_anchor_adds [of a env b u d links href] by blast
qed

text \<open>
  Every link that a page adds to the queue is on the seed's host, is not visited, is
  not in the queue as it stood before the page was scanned, and passes the other
  tests.
\<close>

lemma collect_links_accepted:
  "a \<in> set (collect_links env b u d hrefs) \<Longrightarrow>
   a \<notin> visitedUrls d \<and> a \<notin> set (urlsToVisit d) \<and> \<not> str_includes a ''#'' \<and>
   \<not> has_skipped_extension a \<and> \<not> str_includes a ''mailto:'' \<and> \<not> str_includes a ''tel:'' \<and>
   (\<exists>parsed. parse_url env a = Inr parsed \<and> hostname parsed = hostname b)"
  using foldl_scan_anchor_adds [of a env b u d "[]" hrefs] by (simp add: collect_links_def)

text \<open>
  Claim C6 does not hold of the code. Every link of a page is tested against the
  queue as it stood before the page was scanned, and the accepted links are appended
  together afterwards. The home page of the small site names \<open>/about\<close> twice; the
  iteration that scans it leaves \<open>https://example.com/about\<close> in the queue twice.
\<close>

theorem discover_step_queues_link_twice:
  "urlsToVisit (fst (discover_step site example_com at_home start)) =
     [''https://example.com/about'', ''https://example.com/about'', ''https://example.com/team''] \<and>
   anchor_hrefs site home_html =
     [''/about'', ''/about'', ''https://other.org/'', ''/guide.PDF'', ''#top'', ''/team'']"
  by code_simp

section \<open>The hint of fetchWithRetry\<close>

text \<open>
  What \<open>fetchWithRetry\<close> throws when every attempt is rejected with \<open>err\<close>: the
  choice between the hint and \<open>err\<close> is made on the URL string.
\<close>

lemma fetch_from_all_rejected:
  assumes "\<forall>w. fst (fetch env u w) = Inl err" and "a \<le> m"
  shows "fst (fetch_from env u m a s) =
     (if str_includes u ''google.com'' \<or> str_includes u ''facebook.com'' \<or>
         str_includes u ''twitter.com''
      then (case parse_url env u of
              Inl e \<Rightarrow> Inl e
            | Inr parsed \<Rightarrow>
                Inl (Error (''This website ('' @ hostname parsed @
                  '') blocks automated crawling. Try a different website like example.com, wikipedia.org, or your own website.'')))
      else Inl err)"
  using assms
proof (induction env u m a s rule: fetch_from.induct)
  case (1 env u m a s)
  obtain outcome w where f: "fetch env u (world s) = (outcome, w)"
    by (cases "fetch env u (world s)")
  have o: "outcome = Inl err"
    using "1.prems"(1) f by (metis fst_conv)
  show ?case
  proof (cases "a = m")
    case True
    then show ?thesis
      by (subst fetch_from.simps) (simp add: f o split: sum.splits)
  next
    case False
    have "fst (fetch_from env u m (a + 1) (s\<lparr>world := w, requests := requests s @ [u]\<rparr>)) =
       (if str_includes u ''google.com'' \<or> str_includes u ''facebook.com'' \<or>
           str_includes u ''twitter.com''
        then (case parse_url env u of
                Inl e \<Rightarrow> Inl e
              | Inr parsed \<Rightarrow>
                  Inl (Error (''This website ('' @ hostname parsed @
                    '') blocks automated crawling. Try a different website like example.com, wikipedia.org, or your own website.'')))
        else Inl err)"
      using "1.prems" f o False by (intro "1.IH") simp_all
    then show ?thesis
      using "1.prems"(2) False by (subst fetch_from.simps) (simp add: f o)
  qed
qed

text \<open>
  Claim C5 does not hold of the code. The test for a blocking site reads the whole
  URL string, not the hostname. The URL below has the hostname \<open>example.com\<close>,
  which matches none of the three domains, and names \<open>twitter.com\<close> in its query;
  both attempts are rejected with the network error \<open>fetch failed\<close>, and
  \<open>fetchWithRetry\<close> throws the hint about \<open>example.com\<close> instead of that error.
\<close>

theorem fetchWithRetry_hint_for_other_host:
  "fst (fetchWithRetry site ''https://example.com/share?via=twitter.com'' 2 start) =
     Inl (Error ''This website (example.com) blocks automated crawling. Try a different website like example.com, wikipedia.org, or your own website.'') \<and>
   fst (fetch site ''https://example.com/share?via=twitter.com'' 0) = Inl (Error ''fetch failed'') \<and>
   parse_url site ''https://example.com/share?via=twitter.com'' = Inr example_com \<and>
   hostname example_com = ''example.com''"
  by code_simp


section \<open>The events of a run\<close>




























end
